theory Spec2Isabelle
  imports Complex_Main
begin

section \<open>Numeric values of a series\<close>

text \<open>
  The detectors of \<^verbatim>\<open>pvanalytics/quality/gaps.py\<close> work on a pandas Series of
  floating-point numbers. A value is modelled as a real number or one of the three special
  values of the float type. The tolerance rule and the differences are computed in exact
  arithmetic; \<^verbatim>\<open>Series.round\<close> is computed in binary64, operation by operation, because
  its result decides which values count as identical.
\<close>

datatype fval = Fin real | PInf | NInf | NaN

fun is_finite :: "fval \<Rightarrow> bool" where
  "is_finite (Fin _) = True"
| "is_finite _ = False"

fun is_inf :: "fval \<Rightarrow> bool" where
  "is_inf PInf = True"
| "is_inf NInf = True"
| "is_inf _ = False"

text \<open>Float subtraction, as \<^verbatim>\<open>Series.diff\<close> computes it.\<close>

fun fsub :: "fval \<Rightarrow> fval \<Rightarrow> fval" where
  "fsub (Fin a) (Fin b) = Fin (a - b)"
| "fsub NaN _ = NaN"
| "fsub _ NaN = NaN"
| "fsub PInf PInf = NaN"
| "fsub NInf NInf = NaN"
| "fsub PInf _ = PInf"
| "fsub NInf _ = NInf"
| "fsub (Fin _) PInf = NInf"
| "fsub (Fin _) NInf = PInf"

text \<open>Float equality \<^verbatim>\<open>==\<close>: NaN equals nothing, an infinity equals itself.\<close>

fun feq :: "fval \<Rightarrow> fval \<Rightarrow> bool" where
  "feq (Fin a) (Fin b) = (a = b)"
| "feq PInf PInf = True"
| "feq NInf NInf = True"
| "feq _ _ = False"

text \<open>
  The remaining float operations are used only to read the tolerance rule
  \<^verbatim>\<open>|value - reference| <= atol + rtol * |reference|\<close> of the specification on values
  that need not be finite.
\<close>

fun fabs :: "fval \<Rightarrow> fval" where
  "fabs (Fin a) = Fin \<bar>a\<bar>"
| "fabs PInf = PInf"
| "fabs NInf = PInf"
| "fabs NaN = NaN"

fun fadd :: "fval \<Rightarrow> fval \<Rightarrow> fval" where
  "fadd (Fin a) (Fin b) = Fin (a + b)"
| "fadd NaN _ = NaN"
| "fadd _ NaN = NaN"
| "fadd PInf NInf = NaN"
| "fadd NInf PInf = NaN"
| "fadd PInf _ = PInf"
| "fadd NInf _ = NInf"
| "fadd (Fin _) PInf = PInf"
| "fadd (Fin _) NInf = NInf"

fun fneg :: "fval \<Rightarrow> fval" where
  "fneg (Fin a) = Fin (- a)"
| "fneg PInf = NInf"
| "fneg NInf = PInf"
| "fneg NaN = NaN"

fun fscale_inf :: "real \<Rightarrow> fval \<Rightarrow> fval" where
  "fscale_inf a s = (if 0 < a then s else if a < 0 then fneg s else NaN)"

fun fmul :: "fval \<Rightarrow> fval \<Rightarrow> fval" where
  "fmul (Fin a) (Fin b) = Fin (a * b)"
| "fmul NaN _ = NaN"
| "fmul _ NaN = NaN"
| "fmul (Fin a) s = fscale_inf a s"
| "fmul s (Fin b) = fscale_inf b s"
| "fmul PInf s = s"
| "fmul NInf s = fneg s"

fun fle :: "fval \<Rightarrow> fval \<Rightarrow> bool" where
  "fle (Fin a) (Fin b) = (a \<le> b)"
| "fle NaN _ = False"
| "fle _ NaN = False"
| "fle NInf _ = True"
| "fle _ PInf = True"
| "fle _ _ = False"

definition within_tol :: "real \<Rightarrow> real \<Rightarrow> fval \<Rightarrow> fval \<Rightarrow> bool" where
  "within_tol rtol atol reference v =
     fle (fabs (fsub v reference)) (fadd (Fin atol) (fmul (Fin rtol) (fabs reference)))"

section \<open>Errors and message formatting\<close>

datatype error = ValueError string | IndexError

text \<open>The decimal digit of a number below ten.\<close>

definition digit_char :: "nat \<Rightarrow> char" where
  "digit_char n = ''0123456789'' ! n"

fun str_nat :: "nat \<Rightarrow> string" where
  "str_nat n = (if n < 10 then [digit_char n] else str_nat (n div 10) @ [digit_char (n mod 10)])"

declare str_nat.simps [simp del]

definition str_int :: "int \<Rightarrow> string" where
  "str_int i = (if i < 0 then CHR ''-'' # str_nat (nat (- i)) else str_nat (nat i))"

section \<open>The library operations the detectors call\<close>

text \<open>
  A Series is a list of (label, value) pairs: the index and the values in lockstep. Every
  operation below works by position and keeps the labels.
\<close>

type_synonym 'i series = "('i \<times> fval) list"
type_synonym 'i mask = "('i \<times> bool) list"

text \<open>
  \<^verbatim>\<open>numpy.isclose(a, b, rtol, atol)\<close> on one element: the tolerance rule where both
  values are finite, float equality otherwise (so equal infinities are close, NaN never is).
  \<^verbatim>\<open>numpy.allclose\<close> is its conjunction over the array.
\<close>

fun isclose :: "real \<Rightarrow> real \<Rightarrow> fval \<Rightarrow> fval \<Rightarrow> bool" where
  "isclose rtol atol (Fin a) (Fin b) = (\<bar>a - b\<bar> \<le> atol + rtol * \<bar>b\<bar>)"
| "isclose rtol atol a b = feq a b"

definition allclose :: "fval list \<Rightarrow> fval \<Rightarrow> real \<Rightarrow> real \<Rightarrow> bool" where
  "allclose a b rtol atol = list_all (\<lambda>v. isclose rtol atol v b) a"

text \<open>Results of the function applied to each window, stopping at the first error raised.\<close>

fun collect :: "(error + 'a) list \<Rightarrow> error + 'a list" where
  "collect [] = Inr []"
| "collect (r # rs) =
     (case r of
        Inl e \<Rightarrow> Inl e
      | Inr v \<Rightarrow> (case collect rs of Inl e \<Rightarrow> Inl e | Inr vs \<Rightarrow> Inr (v # vs)))"

text \<open>
  \<^verbatim>\<open>Series.rolling(window).apply(f)\<close>: position \<open>i\<close> holds \<open>f\<close> of the \<open>window\<close>
  values ending at \<open>i\<close> when that many values exist and all of them are finite
  (\<^verbatim>\<open>min_periods\<close> defaults to the window size and only finite observations count);
  otherwise it holds the missing value. A negative window is refused.
\<close>

definition window_at :: "nat \<Rightarrow> 'a list \<Rightarrow> nat \<Rightarrow> 'a list" where
  "window_at w xs i = take w (drop (i + 1 - w) xs)"

definition rolling_cell ::
  "nat \<Rightarrow> (fval list \<Rightarrow> error + bool) \<Rightarrow> fval list \<Rightarrow> nat \<Rightarrow> error + bool option" where
  "rolling_cell w f xs i =
     (if w \<le> i + 1 \<and> list_all is_finite (window_at w xs i)
      then (case f (window_at w xs i) of Inl e \<Rightarrow> Inl e | Inr b \<Rightarrow> Inr (Some b))
      else Inr None)"

definition rolling_apply ::
  "int \<Rightarrow> (fval list \<Rightarrow> error + bool) \<Rightarrow> fval list \<Rightarrow> error + bool option list" where
  "rolling_apply window f xs =
     (if window < 0 then Inl (ValueError ''window must be non-negative'')
      else collect (map (rolling_cell (nat window) f xs) [0..<length xs]))"

text \<open>\<^verbatim>\<open>.fillna(False).astype(bool)\<close>: a missing result becomes False.\<close>

definition fillna_False :: "bool option list \<Rightarrow> bool list" where
  "fillna_False r = map (\<lambda>c. case c of None \<Rightarrow> False | Some b \<Rightarrow> b) r"

section \<open>The tolerance primitive and the diff-based stale detector\<close>

text \<open>
  \<^verbatim>\<open>_all_close_to_first(x, rtol, atol)\<close> is \<^verbatim>\<open>np.allclose(a=x, b=x[0], ...)\<close>;
  \<^verbatim>\<open>x[0]\<close> of an empty array raises IndexError.
\<close>

definition all_close_to_first :: "fval list \<Rightarrow> real \<Rightarrow> real \<Rightarrow> error + bool" where
  "all_close_to_first x rtol atol =
     (case x of [] \<Rightarrow> Inl IndexError | b # _ \<Rightarrow> Inr (allclose x b rtol atol))"

definition stale_values_diff ::
  "'i series \<Rightarrow> int \<Rightarrow> real \<Rightarrow> real \<Rightarrow> error + 'i mask" where
  "stale_values_diff x window rtol atol =
     (if window < 2
      then Inl (ValueError (''window set to '' @ str_int window @ '', must be at least 2''))
      else (case rolling_apply window (\<lambda>w. all_close_to_first w rtol atol) (map snd x) of
              Inl e \<Rightarrow> Inl e
            | Inr r \<Rightarrow> Inr (zip (map fst x) (fillna_False r))))"

section \<open>Rounding, differencing and shifting\<close>

text \<open>\<^verbatim>\<open>numpy.rint\<close>: the nearest integer, a tie going to the even one.\<close>

definition rint :: "real \<Rightarrow> real" where
  "rint v =
     (let f = \<lfloor>v\<rfloor>; r = v - of_int f in
      if r < 1 / 2 then of_int f
      else if 1 / 2 < r then of_int (f + 1)
      else if even f then of_int f else of_int (f + 1))"

text \<open>
  Rounding of a real number to the nearest binary64 value, a tie going to the even
  significand. \<open>binade a\<close> is the exponent \<open>e\<close> with \<open>2^e \<le> a < 2^(e+1)\<close>, kept within
  \<open>-1022\<close> (below it the values are subnormal, all of spacing \<open>2^-1074\<close>) and \<open>1024\<close>; the
  spacing of the doubles around \<open>x\<close> is \<open>2^(e-52)\<close>. A result of magnitude \<open>2^1024\<close> or more
  overflows to an infinity. \<open>(2^32)^32\<close> is \<open>2^1024\<close>, written so that it evaluates quickly.
\<close>

fun exp_up :: "nat \<Rightarrow> real \<Rightarrow> nat" where
  "exp_up 0 a = 0"
| "exp_up (Suc n) a = (if 2 \<le> a then Suc (exp_up n (a / 2)) else 0)"

fun exp_down :: "nat \<Rightarrow> real \<Rightarrow> nat" where
  "exp_down 0 a = 0"
| "exp_down (Suc n) a = (if a < 1 then Suc (exp_down n (2 * a)) else 0)"

definition binade :: "real \<Rightarrow> int" where
  "binade a = (if 1 \<le> a then int (exp_up 1024 a) else - int (exp_down 1022 a))"

definition fl :: "real \<Rightarrow> fval" where
  "fl x =
     (if x = 0 then Fin 0
      else (let u = 2 powi (binade \<bar>x\<bar> - 52); r = rint (x / u) * u
            in if (2 ^ 32) ^ 32 \<le> \<bar>r\<bar> then (if 0 < x then PInf else NInf) else Fin r))"

fun fl_val :: "fval \<Rightarrow> fval" where
  "fl_val (Fin r) = fl r"
| "fl_val v = v"

text \<open>Float division on the special values; the zero of the model has no sign.\<close>

fun fdiv :: "fval \<Rightarrow> fval \<Rightarrow> fval" where
  "fdiv (Fin a) (Fin b) =
     (if b = 0 then (if a = 0 then NaN else if 0 < a then PInf else NInf) else Fin (a / b))"
| "fdiv NaN _ = NaN"
| "fdiv _ NaN = NaN"
| "fdiv (Fin a) s = Fin 0"
| "fdiv s (Fin b) = (if 0 \<le> b then s else fneg s)"
| "fdiv s t = NaN"

text \<open>Multiplication and division of doubles: the exact result, rounded.\<close>

definition dmul :: "fval \<Rightarrow> fval \<Rightarrow> fval" where
  "dmul a b = fl_val (fmul a b)"

definition ddiv :: "fval \<Rightarrow> fval \<Rightarrow> fval" where
  "ddiv a b = fl_val (fdiv a b)"

fun frint :: "fval \<Rightarrow> fval" where
  "frint (Fin a) = Fin (rint a)"
| "frint v = v"

text \<open>
  numpy's \<^verbatim>\<open>power_of_ten(n)\<close>: a table up to \<open>10^8\<close>, from \<open>10^9\<close> on a repeated
  multiplication by ten in doubles (exact up to \<open>10^22\<close>, an infinity from \<open>10^309\<close> on).
\<close>

definition power_of_ten :: "nat \<Rightarrow> fval" where
  "power_of_ten n =
     (if n < 9 then Fin (10 ^ n) else ((\<lambda>r. dmul r (Fin 10)) ^^ (n - 9)) (Fin 1000000000))"

text \<open>
  \<^verbatim>\<open>Series.round(decimals)\<close> is \<^verbatim>\<open>numpy.around\<close> on each value: multiply by the power
  of ten, round to an integer, divide by the power of ten, each step in doubles; a negative
  \<open>decimals\<close> divides first and multiplies last; \<open>decimals = 0\<close> is \<^verbatim>\<open>rint\<close> alone.
\<close>

definition np_round :: "int \<Rightarrow> fval \<Rightarrow> fval" where
  "np_round decimals v =
     (if 0 \<le> decimals
      then (if decimals = 0 then frint v
            else ddiv (frint (dmul v (power_of_ten (nat decimals)))) (power_of_ten (nat decimals)))
      else dmul (frint (ddiv v (power_of_ten (nat (- decimals)))))
             (power_of_ten (nat (- decimals))))"

definition series_round :: "int \<Rightarrow> 'i series \<Rightarrow> 'i series" where
  "series_round decimals x = map (\<lambda>(l, v). (l, np_round decimals v)) x"

text \<open>
  \<^verbatim>\<open>Series.diff(periods=1)\<close>: the same index; the first position holds NaN, every other
  one its value minus its predecessor.
\<close>

definition diff_values :: "fval list \<Rightarrow> fval list" where
  "diff_values xs =
     map (\<lambda>i. if i = 0 then NaN else fsub (xs ! i) (xs ! (i - 1))) [0..<length xs]"

definition series_diff :: "'i series \<Rightarrow> 'i series" where
  "series_diff x = zip (map fst x) (diff_values (map snd x))"

text \<open>
  \<^verbatim>\<open>Series.shift(periods)\<close> on the values: a negative \<open>periods\<close> moves values towards
  the start, the vacated positions hold the missing value.
\<close>

definition shift :: "int \<Rightarrow> 'a list \<Rightarrow> 'a option list" where
  "shift periods xs =
     (if periods \<le> 0
      then map Some (drop (nat (- periods)) xs) @ replicate (min (nat (- periods)) (length xs)) None
      else replicate (min (nat periods) (length xs)) None
           @ map Some (take (length xs - nat periods) xs))"

section \<open>The rounding-based stale detector\<close>

text \<open>
  The loop \<^verbatim>\<open>while window > 0: window = window - 1; flags = flags | endpoints.shift(-window).fillna(False)\<close>.
\<close>

function spread_loop :: "int \<Rightarrow> bool list \<Rightarrow> bool list \<Rightarrow> bool list" where
  "spread_loop window endpoints flags =
     (if 0 < window
      then spread_loop (window - 1) endpoints
             (map2 (\<or>) flags (fillna_False (shift (- (window - 1)) endpoints)))
      else flags)"
  by pat_completeness auto
termination
  by (relation "measure (\<lambda>(window, endpoints, flags). nat window)") auto

declare spread_loop.simps [simp del]

definition stale_values_round :: "'i series \<Rightarrow> int \<Rightarrow> int \<Rightarrow> error + 'i mask" where
  "stale_values_round x decimals window =
     (let rounded_diff = series_diff (series_round decimals x) in
      case rolling_apply (window - 1)
             (\<lambda>xs. Inr (int (length (filter (\<lambda>v. feq v (Fin 0)) xs)) = window - 1))
             (map snd rounded_diff) of
        Inl e \<Rightarrow> Inl e
      | Inr r \<Rightarrow>
          (let endpoints = fillna_False r
           in Inr (zip (map fst rounded_diff) (spread_loop window endpoints endpoints))))"

section \<open>The linear-sequence detector\<close>

definition interpolation_diff ::
  "'i series \<Rightarrow> int \<Rightarrow> real \<Rightarrow> real \<Rightarrow> error + 'i mask" where
  "interpolation_diff x window rtol atol =
     (if window < 3
      then Inl (ValueError (''window set to '' @ str_int window @ '', must be at least 3''))
      else stale_values_diff (series_diff x) (window - 1) rtol atol)"

section \<open>The linear-sequence detector as the specification words it\<close>

text \<open>
  The specification computes the first difference of \<open>x\<close>, which loses the leading
  position, runs the diff-based stale detector on the differenced series with
  \<open>window - 1\<close>, and re-aligns the mask to the index of \<open>x\<close> with the leading position
  False. \<open>first_differences\<close> is that shorter series of differences; its labels are the
  labels of \<open>x\<close> from the second position on.
\<close>

fun first_differences :: "fval list \<Rightarrow> fval list" where
  "first_differences (a # b # rest) = fsub b a # first_differences (b # rest)"
| "first_differences _ = []"

definition interpolation_diff_spec ::
  "'i series \<Rightarrow> int \<Rightarrow> real \<Rightarrow> real \<Rightarrow> error + 'i mask" where
  "interpolation_diff_spec x window rtol atol =
     (if window < 3
      then Inl (ValueError (''window set to '' @ str_int window @ '', must be at least 3''))
      else (case x of
              [] \<Rightarrow> Inr []
            | (l0, v0) # rest \<Rightarrow>
                (case stale_values_diff (zip (map fst rest) (first_differences (map snd x)))
                        (window - 1) rtol atol of
                   Inl e \<Rightarrow> Inl e
                 | Inr m \<Rightarrow> Inr ((l0, False) # m))))"

section \<open>Runs of identical values\<close>

text \<open>
  The maximal run of equal neighbours around position \<open>i\<close> of a list: \<open>run_start\<close> is
  its first position, \<open>run_end\<close> its last one. \<open>same\<close> decides when two neighbouring values
  count as identical.
\<close>

fun run_start :: "(fval \<Rightarrow> fval \<Rightarrow> bool) \<Rightarrow> fval list \<Rightarrow> nat \<Rightarrow> nat" where
  "run_start same r 0 = 0"
| "run_start same r (Suc j) = (if same (r ! j) (r ! Suc j) then run_start same r j else Suc j)"

function run_end :: "(fval \<Rightarrow> fval \<Rightarrow> bool) \<Rightarrow> fval list \<Rightarrow> nat \<Rightarrow> nat" where
  "run_end same r i =
     (if Suc i < length r \<and> same (r ! i) (r ! Suc i) then run_end same r (Suc i) else i)"
  by pat_completeness auto
termination
  by (relation "measure (\<lambda>(same, r, i). length r - i)") auto

declare run_end.simps [simp del]

text \<open>Position \<open>i\<close> belongs to a maximal run of at least \<open>w\<close> values.\<close>

definition in_stale_run :: "(fval \<Rightarrow> fval \<Rightarrow> bool) \<Rightarrow> nat \<Rightarrow> fval list \<Rightarrow> nat \<Rightarrow> bool" where
  "in_stale_run same w r i = (w \<le> run_end same r i + 1 - run_start same r i)"

text \<open>
  Two readings of "identical": float equality \<open>feq\<close>, under which an infinity is
  identical to itself, and float equality of finite values.
\<close>

definition feq_finite :: "fval \<Rightarrow> fval \<Rightarrow> bool" where
  "feq_finite a b = (is_finite a \<and> feq a b)"

section \<open>Closed forms used in the proofs\<close>

text \<open>The flag of the diff-based detector at one position, without the error plumbing.\<close>

definition stale_flag :: "nat \<Rightarrow> real \<Rightarrow> real \<Rightarrow> fval list \<Rightarrow> nat \<Rightarrow> bool" where
  "stale_flag w rtol atol xs i =
     (w \<le> i + 1 \<and> list_all is_finite (window_at w xs i)
      \<and> allclose (window_at w xs i) (xs ! (i + 1 - w)) rtol atol)"

text \<open>
  The endpoint flag of the rounding-based detector at one position: a full window of
  \<open>w\<close> finite differences ends there and all of them are zero.
\<close>

definition endpoint_flag :: "nat \<Rightarrow> fval list \<Rightarrow> nat \<Rightarrow> bool" where
  "endpoint_flag w ds i =
     (w \<le> i + 1 \<and> list_all is_finite (window_at w ds i)
      \<and> length (filter (\<lambda>v. feq v (Fin 0)) (window_at w ds i)) = w)"

section \<open>Properties of the rolling window\<close>

lemma collect_map_Inr:
  "(\<And>a. a \<in> set as \<Longrightarrow> g a = Inr (h a)) \<Longrightarrow> collect (map g as) = Inr (map h as)"
  by (induction as) auto

lemma length_window_at:
  "w \<le> i + 1 \<Longrightarrow> i < length xs \<Longrightarrow> length (window_at w xs i) = w"
  by (simp add: window_at_def)

lemma nth_window_at:
  "w \<le> i + 1 \<Longrightarrow> i < length xs \<Longrightarrow> m < w \<Longrightarrow> window_at w xs i ! m = xs ! (i + 1 - w + m)"
  by (simp add: window_at_def)

lemma window_at_all:
  assumes "w \<le> i + 1" and "i < length xs"
  shows "(\<forall>v \<in> set (window_at w xs i). P v) = (\<forall>j. i + 1 - w \<le> j \<and> j \<le> i \<longrightarrow> P (xs ! j))"
proof
  assume L: "\<forall>v \<in> set (window_at w xs i). P v"
  show "\<forall>j. i + 1 - w \<le> j \<and> j \<le> i \<longrightarrow> P (xs ! j)"
  proof (intro allI impI)
    fix j assume j: "i + 1 - w \<le> j \<and> j \<le> i"
    define m where "m = j - (i + 1 - w)"
    have m: "m < w" "j = i + 1 - w + m" using j assms by (auto simp: m_def)
    have "window_at w xs i ! m \<in> set (window_at w xs i)"
      using m assms by (simp add: length_window_at)
    then show "P (xs ! j)" using L m assms by (simp add: nth_window_at)
  qed
next
  assume R: "\<forall>j. i + 1 - w \<le> j \<and> j \<le> i \<longrightarrow> P (xs ! j)"
  show "\<forall>v \<in> set (window_at w xs i). P v"
  proof
    fix v assume "v \<in> set (window_at w xs i)"
    then obtain m where m: "m < w" "v = window_at w xs i ! m"
      using assms by (auto simp: in_set_conv_nth length_window_at)
    then have "v = xs ! (i + 1 - w + m)" using assms by (simp add: nth_window_at)
    moreover have "i + 1 - w \<le> i + 1 - w + m \<and> i + 1 - w + m \<le> i" using m assms by auto
    ultimately show "P v" using R by blast
  qed
qed

lemma hd_window_at:
  "0 < w \<Longrightarrow> w \<le> i + 1 \<Longrightarrow> i < length xs \<Longrightarrow> hd (window_at w xs i) = xs ! (i + 1 - w)"
  using nth_window_at [of w i xs 0] length_window_at [of w i xs]
  by (cases "window_at w xs i") auto

lemma rolling_cell_primitive:
  assumes "0 < w" and "i < length xs"
  shows "rolling_cell w (\<lambda>win. all_close_to_first win rtol atol) xs i =
           Inr (if w \<le> i + 1 \<and> list_all is_finite (window_at w xs i)
                then Some (allclose (window_at w xs i) (xs ! (i + 1 - w)) rtol atol) else None)"
proof (cases "w \<le> i + 1")
  case True
  then obtain b bs where win: "window_at w xs i = b # bs"
    using length_window_at [of w i xs] assms by (cases "window_at w xs i") auto
  have "b = xs ! (i + 1 - w)" using hd_window_at [of w i xs] assms True win by simp
  then show ?thesis using True win
    by (simp add: rolling_cell_def all_close_to_first_def)
next
  case False
  then show ?thesis by (simp add: rolling_cell_def)
qed

lemma rolling_apply_primitive:
  assumes "0 < window"
  shows "rolling_apply window (\<lambda>win. all_close_to_first win rtol atol) xs =
           Inr (map (\<lambda>i. if nat window \<le> i + 1 \<and> list_all is_finite (window_at (nat window) xs i)
                then Some (allclose (window_at (nat window) xs i) (xs ! (i + 1 - nat window)) rtol atol) else None) [0..<length xs])"
proof -
  have "collect (map (rolling_cell (nat window) (\<lambda>win. all_close_to_first win rtol atol) xs) [0..<length xs])
        = Inr (map (\<lambda>i. if nat window \<le> i + 1 \<and> list_all is_finite (window_at (nat window) xs i)
                then Some (allclose (window_at (nat window) xs i) (xs ! (i + 1 - nat window)) rtol atol) else None) [0..<length xs])"
    by (rule collect_map_Inr) (use assms in \<open>simp add: rolling_cell_primitive\<close>)
  then show ?thesis using assms by (simp add: rolling_apply_def)
qed

lemma fillna_False_map_if:
  "fillna_False (map (\<lambda>i. if C i then Some (A i) else None) js) = map (\<lambda>i. C i \<and> A i) js"
  by (simp add: fillna_False_def)

lemma stale_values_diff_closed:
  assumes "2 \<le> window"
  shows "stale_values_diff x window rtol atol =
           Inr (zip (map fst x) (map (stale_flag (nat window) rtol atol (map snd x)) [0..<length x]))"
proof -
  have "0 < window" "\<not> window < 2" using assms by auto
  then show ?thesis
    unfolding stale_values_diff_def
    by (simp add: rolling_apply_primitive fillna_False_map_if stale_flag_def [abs_def])
qed

lemma within_tol_Fin:
  "within_tol rtol atol (Fin b) v = (\<exists>a. v = Fin a \<and> \<bar>a - b\<bar> \<le> atol + rtol * \<bar>b\<bar>)"
  by (cases v) (simp_all add: within_tol_def)


section \<open>The diff-based detector flags exactly the windows within tolerance\<close>



lemma anchor_in_window:
  assumes "0 < w" and "w \<le> i + 1" and "i < length xs"
  shows "xs ! (i + 1 - w) \<in> set (window_at w xs i)"
proof -
  have "window_at w xs i ! 0 \<in> set (window_at w xs i)"
    using assms by (simp add: length_window_at)
  then show ?thesis using assms by (simp add: nth_window_at)
qed






section \<open>The tolerance primitive\<close>



section \<open>Validation of the window\<close>

text \<open>
  Claim C5. Whatever the series, \<open>stale_values_diff\<close> with a window below 2 and
  \<open>interpolation_diff\<close> with a window below 3 return the ValueError whose message is
  \<^verbatim>\<open>window set to <window>, must be at least <minimum>\<close>; no mask is returned, and the
  result does not depend on the data.
\<close>

theorem window_below_minimum_raises:
  "(window < 2 \<longrightarrow> stale_values_diff x window rtol atol
      = Inl (ValueError (''window set to '' @ str_int window @ '', must be at least 2'')))
   \<and> (window < 3 \<longrightarrow> interpolation_diff x window rtol atol
      = Inl (ValueError (''window set to '' @ str_int window @ '', must be at least 3'')))"
  by (simp add: stale_values_diff_def interpolation_diff_def)

theorem window_below_minimum_raises_witness:
  "(1::int) < 2 \<and> (2::int) < 3 \<and> (- 12::int) < 2
   \<and> stale_values_diff [(0::nat, Fin 1), (1, Fin 1)] 1 (1/100000) (1/100000000)
       = Inl (ValueError ''window set to 1, must be at least 2'')
   \<and> interpolation_diff [(0::nat, Fin 1), (1, Fin 1)] 2 (1/100000) (1/100000000)
       = Inl (ValueError ''window set to 2, must be at least 3'')
   \<and> stale_values_diff [(0::nat, Fin 1), (1, Fin 1)] (- 12) (1/100000) (1/100000000)
       = Inl (ValueError ''window set to -12, must be at least 2'')"
  using window_below_minimum_raises [of 1 "[(0::nat, Fin 1), (1, Fin 1)]" "1/100000" "1/100000000"]
    window_below_minimum_raises [of 2 "[(0::nat, Fin 1), (1, Fin 1)]" "1/100000" "1/100000000"]
    window_below_minimum_raises [of "- 12" "[(0::nat, Fin 1), (1, Fin 1)]" "1/100000" "1/100000000"]
  by (simp add: str_int_def str_nat.simps digit_char_def)

section \<open>Enlarging the tolerances\<close>




section \<open>Shape of the returned mask\<close>

lemma map_fst_series_diff: "map fst (series_diff x) = map fst x"
  by (simp add: series_diff_def diff_values_def map_fst_zip)

lemma map_snd_series_diff: "map snd (series_diff x) = diff_values (map snd x)"
  by (simp add: series_diff_def diff_values_def map_snd_zip)

lemma length_series_diff: "length (series_diff x) = length x"
  by (simp add: series_diff_def diff_values_def)

lemma map_fst_series_round: "map fst (series_round d x) = map fst x"
  by (induction x) (auto simp: series_round_def)

lemma map_snd_series_round: "map snd (series_round d x) = map (np_round d) (map snd x)"
  by (induction x) (auto simp: series_round_def)

lemma length_diff_values: "length (diff_values xs) = length xs"
  by (simp add: diff_values_def)

lemma length_shift: "length (shift p xs) = length xs"
  by (auto simp: shift_def)

lemma length_fillna_False: "length (fillna_False r) = length r"
  by (simp add: fillna_False_def)

lemma length_spread_loop:
  "length endpoints = length flags \<Longrightarrow> length (spread_loop window endpoints flags) = length flags"
proof (induction window endpoints flags rule: spread_loop.induct)
  case (1 window endpoints flags)
  show ?case
  proof (cases "0 < window")
    case True
    have "length (map2 (\<or>) flags (fillna_False (shift (- (window - 1)) endpoints))) = length flags"
      using "1.prems" by (simp add: length_fillna_False length_shift)
    then show ?thesis using True "1.IH" "1.prems"
      by (subst spread_loop.simps) simp
  next
    case False
    then show ?thesis by (subst spread_loop.simps) simp
  qed
qed

lemma rolling_apply_total:
  assumes "0 \<le> window"
  shows "rolling_apply window (\<lambda>xs. Inr (g xs)) ds =
           Inr (map (\<lambda>i. if nat window \<le> i + 1 \<and> list_all is_finite (window_at (nat window) ds i)
                          then Some (g (window_at (nat window) ds i)) else None) [0..<length ds])"
proof -
  have "collect (map (rolling_cell (nat window) (\<lambda>xs. Inr (g xs)) ds) [0..<length ds])
        = Inr (map (\<lambda>i. if nat window \<le> i + 1 \<and> list_all is_finite (window_at (nat window) ds i)
                          then Some (g (window_at (nat window) ds i)) else None) [0..<length ds])"
    by (rule collect_map_Inr) (simp add: rolling_cell_def)
  then show ?thesis using assms by (simp add: rolling_apply_def)
qed

lemma stale_values_round_closed:
  assumes "1 \<le> window"
  shows "stale_values_round x decimals window =
           Inr (zip (map fst x)
                  (spread_loop window
                     (map (endpoint_flag (nat (window - 1)) (diff_values (map (np_round decimals) (map snd x)))) [0..<length x])
                     (map (endpoint_flag (nat (window - 1)) (diff_values (map (np_round decimals) (map snd x)))) [0..<length x])))"
proof -
  have w: "0 \<le> window - 1" using assms by simp
  have eq: "(int n = window - 1) = (n = nat (window - 1))" for n using w by auto
  show ?thesis
    unfolding stale_values_round_def Let_def
    by (simp add: rolling_apply_total [OF w] map_fst_series_diff map_snd_series_diff
        map_fst_series_round map_snd_series_round length_diff_values fillna_False_map_if
        endpoint_flag_def [abs_def] eq)
qed

lemma stale_values_round_shape:
  assumes "1 \<le> window"
  shows "\<exists>m. stale_values_round x decimals window = Inr m \<and> length m = length x \<and> map fst m = map fst x"
  by (simp add: stale_values_round_closed [OF assms] length_spread_loop map_fst_zip)

lemma stale_values_diff_shape:
  assumes "2 \<le> window"
  shows "\<exists>m. stale_values_diff x window rtol atol = Inr m \<and> length m = length x \<and> map fst m = map fst x"
  by (simp add: stale_values_diff_closed [OF assms] map_fst_zip)

lemma interpolation_diff_shape:
  assumes "3 \<le> window"
  shows "\<exists>m. interpolation_diff x window rtol atol = Inr m \<and> length m = length x \<and> map fst m = map fst x"
proof -
  have "2 \<le> window - 1" "\<not> window < 3" using assms by auto
  then show ?thesis
    using stale_values_diff_shape [of "window - 1" "series_diff x" rtol atol]
    by (simp add: interpolation_diff_def length_series_diff map_fst_series_diff)
qed

text \<open>
  Claim C7. With valid parameters (a window of at least 2 for \<open>stale_values_diff\<close>, at
  least 3 for \<open>interpolation_diff\<close>, at least 1 for \<open>stale_values_round\<close>, which
  validates nothing itself but whose rolling window \<open>window - 1\<close> must not be negative)
  each detector returns a mask as long as the input series and with the same index.
\<close>

theorem detectors_preserve_index:
  "(2 \<le> w1 \<longrightarrow> (\<exists>m. stale_values_diff x w1 rtol atol = Inr m
                       \<and> length m = length x \<and> map fst m = map fst x))
   \<and> (1 \<le> w2 \<longrightarrow> (\<exists>m. stale_values_round x decimals w2 = Inr m
                       \<and> length m = length x \<and> map fst m = map fst x))
   \<and> (3 \<le> w3 \<longrightarrow> (\<exists>m. interpolation_diff x w3 rtol atol = Inr m
                       \<and> length m = length x \<and> map fst m = map fst x))"
  using stale_values_diff_shape stale_values_round_shape interpolation_diff_shape by blast

theorem detectors_preserve_index_witness:
  "(2::int) \<le> 2 \<and> (1::int) \<le> 2 \<and> (3::int) \<le> 3
   \<and> stale_values_diff [(''a'', Fin 5), (''b'', Fin 5), (''c'', Fin 6)] 2 0 0
        = Inr [(''a'', False), (''b'', True), (''c'', False)]
   \<and> stale_values_round [(''a'', Fin 5), (''b'', Fin 5), (''c'', Fin 6)] 0 2
        = Inr [(''a'', True), (''b'', True), (''c'', False)]
   \<and> (\<exists>m. interpolation_diff [(''a'', Fin 5), (''b'', Fin 5), (''c'', Fin 6)] 3 0 0 = Inr m
          \<and> length m = 3 \<and> map fst m = [''a'', ''b'', ''c''])"
proof -
  let ?x = "[(''a'', Fin 5), (''b'', Fin 5), (''c'', Fin 6)]"
  have ev1: "stale_values_diff ?x 2 0 0 = Inr [(''a'', False), (''b'', True), (''c'', False)]"
    by code_simp
  have ev2: "stale_values_round ?x 0 2 = Inr [(''a'', True), (''b'', True), (''c'', False)]"
    by code_simp
  show ?thesis
    using detectors_preserve_index [of 2 ?x 0 0 2 0 3] ev1 ev2 by (simp add: numeral_3_eq_3)
qed

text \<open>
  Claim C10. On the empty series each detector returns the empty mask and no error:
  \<open>stale_values_diff\<close> for a window of at least 2, \<open>interpolation_diff\<close> for a window
  of at least 3, \<open>stale_values_round\<close> with its defaults (3 decimals, window 4) and for
  every window of at least 1.
\<close>

theorem empty_series_empty_mask:
  "(2 \<le> w1 \<longrightarrow> stale_values_diff ([] :: 'i series) w1 rtol atol = Inr [])
   \<and> (3 \<le> w3 \<longrightarrow> interpolation_diff ([] :: 'i series) w3 rtol atol = Inr [])
   \<and> stale_values_round ([] :: 'i series) 3 4 = Inr []
   \<and> (1 \<le> w2 \<longrightarrow> stale_values_round ([] :: 'i series) decimals w2 = Inr [])"
proof -
  have a: "stale_values_diff ([] :: 'i series) w1 rtol atol = Inr []" if "2 \<le> w1"
    using stale_values_diff_shape [OF that, of "[]" rtol atol] by auto
  have b: "interpolation_diff ([] :: 'i series) w3 rtol atol = Inr []" if "3 \<le> w3"
    using interpolation_diff_shape [OF that, of "[]" rtol atol] by auto
  have c: "stale_values_round ([] :: 'i series) d w = Inr []" if "1 \<le> w" for d w
    using stale_values_round_shape [OF that, of "[]" d] by auto
  show ?thesis using a b c by simp
qed

theorem empty_series_empty_mask_witness:
  "(2::int) \<le> 2 \<and> (3::int) \<le> 3 \<and> (1::int) \<le> 1
   \<and> stale_values_diff ([] :: nat series) 2 (1/100000) (1/100000000) = Inr []
   \<and> interpolation_diff ([] :: nat series) 3 (1/100000) (1/100000000) = Inr []
   \<and> stale_values_round ([] :: nat series) 3 4 = Inr []
   \<and> stale_values_round ([] :: nat series) 0 1 = Inr []"
  using empty_series_empty_mask [where 'i = nat, of 2 "1/100000" "1/100000000" 3 1 0]
  by simp

section \<open>Windows with a non-finite reference\<close>

text \<open>
  The tolerance test on its own treats equal infinities as close, so it is satisfied by a
  window whose reference is infinite.
\<close>

theorem equal_infinities_satisfy_primitive:
  "all_close_to_first [PInf, PInf] (1/100000) (1/100000000) = Inr True"
  by (simp add: all_close_to_first_def allclose_def)

lemma stale_flag_nonfinite_anchor:
  assumes "0 < w" and "w \<le> i + 1" and "i < length xs" and "\<not> is_finite (xs ! (i + 1 - w))"
  shows "\<not> list_all is_finite (window_at w xs i)"
  using anchor_in_window [OF assms(1-3)] assms(4) by (auto simp: list_all_iff)

lemma allclose_NaN: "win \<noteq> [] \<Longrightarrow> \<not> allclose win NaN rtol atol"
  by (cases win; cases "hd win") (auto simp: allclose_def)

text \<open>
  Claim C6, amended. When the first element of the window ending at \<open>i\<close> is NaN or an
  infinity, \<open>stale_values_diff\<close> flags \<open>i\<close> False: the rolling application holds the
  missing value there, the tolerance test is not applied to a window with a non-finite
  value. The test itself is never satisfied against a NaN reference; a window of equal
  infinities satisfies it, as shown above.
\<close>

theorem nonfinite_reference_not_flagged:
  assumes "2 \<le> window" and "i < length x" and "nat window \<le> i + 1"
    and "\<not> is_finite (snd (x ! (i + 1 - nat window)))"
  shows "(\<exists>mask. stale_values_diff x window rtol atol = Inr mask \<and> \<not> snd (mask ! i))
         \<and> rolling_cell (nat window) (\<lambda>w. all_close_to_first w rtol atol) (map snd x) i = Inr None
         \<and> (snd (x ! (i + 1 - nat window)) = NaN \<longrightarrow>
              all_close_to_first (window_at (nat window) (map snd x) i) rtol atol = Inr False)"
proof -
  let ?w = "nat window" and ?xs = "map snd x"
  have w: "0 < ?w" using assms(1) by simp
  have i: "i < length ?xs" using assms(2) by simp
  have "i + 1 - ?w < length x" using assms(2) w by linarith
  then have anchor: "?xs ! (i + 1 - ?w) = snd (x ! (i + 1 - ?w))" by simp
  have nf: "\<not> list_all is_finite (window_at ?w ?xs i)"
    using stale_flag_nonfinite_anchor [OF w assms(3) i] assms(4) anchor by simp
  have "\<not> stale_flag ?w rtol atol ?xs i" using nf by (simp add: stale_flag_def)
  then have A: "\<exists>mask. stale_values_diff x window rtol atol = Inr mask \<and> \<not> snd (mask ! i)"
    using assms(2) by (simp add: stale_values_diff_closed [OF assms(1)])
  have B: "rolling_cell ?w (\<lambda>w. all_close_to_first w rtol atol) ?xs i = Inr None"
    using nf by (simp add: rolling_cell_def)
  have C: "all_close_to_first (window_at ?w ?xs i) rtol atol = Inr False"
    if "snd (x ! (i + 1 - ?w)) = NaN"
  proof -
    obtain b bs where win: "window_at ?w ?xs i = b # bs"
      using length_window_at [OF assms(3) i] w by (cases "window_at ?w ?xs i") auto
    have "b = NaN" using hd_window_at [OF w assms(3) i] win anchor that by simp
    then show ?thesis using allclose_NaN [of "b # bs" rtol atol] win
      by (simp add: all_close_to_first_def)
  qed
  show ?thesis using A B C by blast
qed

theorem nonfinite_reference_not_flagged_witness:
  "(2::int) \<le> 2 \<and> (1::nat) < length [(0::nat, PInf), (1, PInf)] \<and> nat 2 \<le> (1::nat) + 1
   \<and> \<not> is_finite (snd ([(0::nat, PInf), (1, PInf)] ! (1 + 1 - nat 2)))
   \<and> stale_values_diff [(0::nat, PInf), (1, PInf)] 2 (1/100000) (1/100000000)
        = Inr [(0, False), (1, False)]
   \<and> rolling_cell (nat 2) (\<lambda>w. all_close_to_first w (1/100000) (1/100000000))
        (map snd [(0::nat, PInf), (1, PInf)]) 1 = Inr None"
proof -
  let ?x = "[(0::nat, PInf), (1, PInf)]"
  have h: "(2::int) \<le> 2" "(1::nat) < length ?x" "nat 2 \<le> (1::nat) + 1"
    "\<not> is_finite (snd (?x ! (1 + 1 - nat 2)))" by simp_all
  have ev: "stale_values_diff ?x 2 (1/100000) (1/100000000) = Inr [(0, False), (1, False)]"
    by code_simp
  show ?thesis
    using nonfinite_reference_not_flagged [OF h, of "1/100000" "1/100000000"] h ev by simp
qed

section \<open>The linear-sequence detector\<close>

lemma length_first_differences: "length (first_differences xs) = length xs - 1"
  by (induction xs rule: first_differences.induct) auto

lemma nth_first_differences:
  "Suc k < length xs \<Longrightarrow> first_differences xs ! k = fsub (xs ! Suc k) (xs ! k)"
proof (induction xs arbitrary: k rule: first_differences.induct)
  case (1 a b rest)
  then show ?case by (cases k) auto
qed auto

lemma diff_values_Cons: "diff_values (a # rest) = NaN # first_differences (a # rest)"
proof (rule nth_equalityI)
  show "length (diff_values (a # rest)) = length (NaN # first_differences (a # rest))"
    by (simp add: length_diff_values length_first_differences)
next
  fix i assume "i < length (diff_values (a # rest))"
  then have i: "i < Suc (length rest)" by (simp add: length_diff_values)
  show "diff_values (a # rest) ! i = (NaN # first_differences (a # rest)) ! i"
  proof (cases i)
    case 0
    then show ?thesis by (simp add: diff_values_def upt_rec)
  next
    case (Suc k)
    then have k: "Suc k < length (a # rest)" using i by simp
    have "diff_values (a # rest) ! i = fsub ((a # rest) ! Suc k) ((a # rest) ! k)"
      using i Suc unfolding diff_values_def by (simp del: upt_Suc)
    then show ?thesis using nth_first_differences [OF k] Suc by simp
  qed
qed

lemma stale_flag_NaN_head: "0 < w \<Longrightarrow> \<not> stale_flag w rtol atol (NaN # ds) 0"
  by (cases w) (auto simp: stale_flag_def window_at_def)

lemma stale_flag_NaN_Suc:
  assumes "0 < w"
  shows "stale_flag w rtol atol (NaN # ds) (Suc i) = stale_flag w rtol atol ds i"
proof (cases "w \<le> i + 1")
  case True
  then have "Suc i + 1 - w = Suc (i + 1 - w)" by simp
  then show ?thesis using True by (simp add: stale_flag_def window_at_def)
next
  case False
  show ?thesis
  proof (cases "w \<le> Suc i + 1")
    case True
    then have "Suc i + 1 - w = 0" using False by simp
    moreover obtain w' where "w = Suc w'" using assms by (cases w) auto
    ultimately show ?thesis using False by (simp add: stale_flag_def window_at_def)
  next
    case False
    then show ?thesis by (simp add: stale_flag_def)
  qed
qed

lemma stale_flags_NaN_Cons:
  assumes "0 < w"
  shows "map (stale_flag w rtol atol (NaN # ds)) [0..<Suc n]
           = False # map (stale_flag w rtol atol ds) [0..<n]"
proof -
  have "[0..<Suc n] = 0 # map Suc [0..<n]" by (simp add: upt_conv_Cons map_Suc_upt del: upt_Suc)
  then show ?thesis
    using assms by (simp add: stale_flag_NaN_head stale_flag_NaN_Suc o_def del: upt_Suc)
qed

text \<open>
  Claim C3. For a window of at least 3, \<open>interpolation_diff\<close> is \<open>stale_values_diff\<close> on
  the first-difference series of \<open>x\<close> with \<open>window - 1\<close> and the same tolerances; it
  agrees with the specification's wording (differences without the leading position, the
  mask re-aligned with a leading False); the mask carries the index of \<open>x\<close> and its
  leading position is False.
\<close>

theorem interpolation_diff_refines:
  assumes "3 \<le> window"
  shows "interpolation_diff x window rtol atol
           = stale_values_diff (series_diff x) (window - 1) rtol atol
         \<and> interpolation_diff x window rtol atol = interpolation_diff_spec x window rtol atol
         \<and> (\<exists>m. interpolation_diff x window rtol atol = Inr m \<and> map fst m = map fst x
                \<and> (x \<noteq> [] \<longrightarrow> \<not> snd (m ! 0)))"
proof -
  let ?w = "nat (window - 1)"
  have w: "2 \<le> window - 1" "\<not> window < 3" "0 < ?w" using assms by auto
  have A: "interpolation_diff x window rtol atol
             = stale_values_diff (series_diff x) (window - 1) rtol atol"
    using w by (simp add: interpolation_diff_def)
  have closed: "interpolation_diff x window rtol atol
      = Inr (zip (map fst x) (map (stale_flag ?w rtol atol (diff_values (map snd x))) [0..<length x]))"
    using A by (simp add: stale_values_diff_closed [OF w(1)] map_fst_series_diff
        map_snd_series_diff length_series_diff)
  have B: "interpolation_diff x window rtol atol = interpolation_diff_spec x window rtol atol"
  proof (cases x)
    case Nil
    then show ?thesis using w closed by (simp add: interpolation_diff_spec_def)
  next
    case (Cons p rest)
    obtain l0 v0 where p: "p = (l0, v0)" by (cases p)
    let ?fd = "first_differences (v0 # map snd rest)"
    have len: "length ?fd = length rest" by (simp add: length_first_differences)
    have spec: "interpolation_diff_spec x window rtol atol
        = Inr ((l0, False) # zip (map fst rest) (map (stale_flag ?w rtol atol ?fd) [0..<length rest]))"
      using w len
      by (simp add: interpolation_diff_spec_def Cons p stale_values_diff_closed [OF w(1)]
          map_snd_zip)
    have "zip (map fst x) (map (stale_flag ?w rtol atol (diff_values (map snd x))) [0..<length x])
        = (l0, False) # zip (map fst rest) (map (stale_flag ?w rtol atol ?fd) [0..<length rest])"
      using stale_flags_NaN_Cons [OF w(3), of rtol atol ?fd "length rest"]
      by (simp add: Cons p diff_values_Cons del: upt_Suc)
    then show ?thesis using closed spec by simp
  qed
  have C: "\<exists>m. interpolation_diff x window rtol atol = Inr m \<and> map fst m = map fst x
                \<and> (x \<noteq> [] \<longrightarrow> \<not> snd (m ! 0))"
  proof (cases x)
    case Nil
    then show ?thesis using closed by simp
  next
    case (Cons p rest)
    obtain l0 v0 where p: "p = (l0, v0)" by (cases p)
    have "interpolation_diff x window rtol atol
        = Inr ((l0, False) # zip (map fst rest)
                (map (stale_flag ?w rtol atol (first_differences (v0 # map snd rest))) [0..<length rest]))"
      using closed stale_flags_NaN_Cons [OF w(3), of rtol atol "first_differences (v0 # map snd rest)" "length rest"]
      by (simp add: Cons p diff_values_Cons del: upt_Suc)
    then show ?thesis by (simp add: Cons p map_fst_zip)
  qed
  show ?thesis using A B C by blast
qed

theorem interpolation_diff_refines_witness:
  "(3::int) \<le> 3
   \<and> interpolation_diff [(0::nat, Fin 1), (1, Fin 2), (2, Fin 3), (3, Fin 5)] 3 0 0
        = Inr [(0, False), (1, False), (2, True), (3, False)]
   \<and> interpolation_diff_spec [(0::nat, Fin 1), (1, Fin 2), (2, Fin 3), (3, Fin 5)] 3 0 0
        = Inr [(0, False), (1, False), (2, True), (3, False)]
   \<and> stale_values_diff (series_diff [(0::nat, Fin 1), (1, Fin 2), (2, Fin 3), (3, Fin 5)]) 2 0 0
        = Inr [(0, False), (1, False), (2, True), (3, False)]"
proof -
  let ?x = "[(0::nat, Fin 1), (1, Fin 2), (2, Fin 3), (3, Fin 5)]"
  have h: "(3::int) \<le> 3" by simp
  have ev: "interpolation_diff ?x 3 0 0 = Inr [(0, False), (1, False), (2, True), (3, False)]"
    by code_simp
  have A: "interpolation_diff ?x 3 0 0 = stale_values_diff (series_diff ?x) (3 - 1) 0 0"
    and B: "interpolation_diff ?x 3 0 0 = interpolation_diff_spec ?x 3 0 0"
    using interpolation_diff_refines [OF h, of ?x 0 0] by blast+
  have "interpolation_diff_spec ?x 3 0 0 = Inr [(0, False), (1, False), (2, True), (3, False)]"
    by (simp only: B [symmetric] ev)
  moreover have "stale_values_diff (series_diff ?x) 2 0 0
      = Inr [(0, False), (1, False), (2, True), (3, False)]"
    using A ev by simp
  ultimately show ?thesis using h ev by simp
qed

section \<open>Maximal runs\<close>

lemma run_start_le: "run_start same r i \<le> i"
  by (induction i) auto

lemma run_start_chain:
  "run_start same r i \<le> j \<Longrightarrow> j < i \<Longrightarrow> same (r ! j) (r ! Suc j)"
proof (induction i)
  case 0
  then show ?case by simp
next
  case (Suc i)
  show ?case
  proof (cases "same (r ! i) (r ! Suc i)")
    case True
    then show ?thesis using Suc by (cases "j = i") auto
  next
    case False
    then show ?thesis using Suc.prems by simp
  qed
qed

lemma run_start_least:
  "s \<le> i \<Longrightarrow> (\<And>j. s \<le> j \<Longrightarrow> j < i \<Longrightarrow> same (r ! j) (r ! Suc j)) \<Longrightarrow> run_start same r i \<le> s"
proof (induction i)
  case 0
  then show ?case by simp
next
  case (Suc i)
  show ?case
  proof (cases "s = Suc i")
    case True
    then show ?thesis using run_start_le [of same r "Suc i"] by simp
  next
    case False
    then have s: "s \<le> i" using Suc.prems(1) by simp
    then have "same (r ! i) (r ! Suc i)" using Suc.prems(2) [of i] by simp
    moreover have "run_start same r i \<le> s" using Suc.IH [OF s] Suc.prems(2) by simp
    ultimately show ?thesis by simp
  qed
qed

lemma run_end_bounds: "i < length r \<Longrightarrow> i \<le> run_end same r i \<and> run_end same r i < length r"
proof (induction same r i rule: run_end.induct)
  case (1 same r i)
  show ?case
  proof (cases "Suc i < length r \<and> same (r ! i) (r ! Suc i)")
    case True
    then show ?thesis using "1.IH" by (subst (1 2) run_end.simps) auto
  next
    case False
    then show ?thesis using "1.prems" by (subst (1 2) run_end.simps) auto
  qed
qed

lemma run_end_chain:
  "i \<le> j \<Longrightarrow> j < run_end same r i \<Longrightarrow> same (r ! j) (r ! Suc j)"
proof (induction same r i rule: run_end.induct)
  case (1 same r i)
  show ?case
  proof (cases "Suc i < length r \<and> same (r ! i) (r ! Suc i)")
    case True
    have e: "run_end same r i = run_end same r (Suc i)"
      using True by (subst run_end.simps) simp
    show ?thesis
    proof (cases "j = i")
      case True
      then show ?thesis using \<open>Suc i < length r \<and> same (r ! i) (r ! Suc i)\<close> by simp
    next
      case False
      then show ?thesis using "1.IH" [OF True] "1.prems" e by simp
    qed
  next
    case False
    have "run_end same r i = i" by (subst run_end.simps) (simp add: False)
    then show ?thesis using "1.prems" by simp
  qed
qed

lemma run_end_greatest:
  "i \<le> t \<Longrightarrow> t < length r \<Longrightarrow> (\<And>j. i \<le> j \<Longrightarrow> j < t \<Longrightarrow> same (r ! j) (r ! Suc j))
     \<Longrightarrow> t \<le> run_end same r i"
proof (induction same r i rule: run_end.induct)
  case (1 same r i)
  show ?case
  proof (cases "t = i")
    case True
    then show ?thesis using run_end_bounds [of i r same] "1.prems" by simp
  next
    case False
    then have lt: "i < t" using "1.prems"(1) by simp
    then have c: "Suc i < length r \<and> same (r ! i) (r ! Suc i)"
      using "1.prems"(2) "1.prems"(3) [of i] by simp
    have e: "run_end same r i = run_end same r (Suc i)"
      using c by (subst run_end.simps) simp
    have "t \<le> run_end same r (Suc i)"
      using "1.IH" [OF c] lt "1.prems"(2) "1.prems"(3) by simp
    then show ?thesis using e by simp
  qed
qed

lemma run_start_boundary:
  "run_start same r i = 0 \<or> \<not> same (r ! (run_start same r i - 1)) (r ! run_start same r i)"
  by (induction i) auto

lemma run_end_boundary:
  "i < length r \<Longrightarrow>
   Suc (run_end same r i) = length r \<or> \<not> same (r ! run_end same r i) (r ! Suc (run_end same r i))"
proof (induction same r i rule: run_end.induct)
  case (1 same r i)
  show ?case
  proof (cases "Suc i < length r \<and> same (r ! i) (r ! Suc i)")
    case True
    have e: "run_end same r i = run_end same r (Suc i)"
      using True by (subst run_end.simps) simp
    show ?thesis using "1.IH" [OF True] True unfolding e by simp
  next
    case False
    have e: "run_end same r i = i" by (subst run_end.simps) (simp add: False)
    show ?thesis using False "1.prems" unfolding e by auto
  qed
qed

text \<open>
  \<open>run_start\<close> and \<open>run_end\<close> delimit the maximal run around \<open>i\<close>: all neighbours inside
  are identical, and the run cannot be extended at either end.
\<close>

lemma run_is_maximal:
  assumes "i < length r"
  shows "run_start same r i \<le> i \<and> i \<le> run_end same r i \<and> run_end same r i < length r
         \<and> (\<forall>j. run_start same r i \<le> j \<and> j < run_end same r i \<longrightarrow> same (r ! j) (r ! Suc j))
         \<and> (run_start same r i = 0
              \<or> \<not> same (r ! (run_start same r i - 1)) (r ! run_start same r i))
         \<and> (Suc (run_end same r i) = length r
              \<or> \<not> same (r ! run_end same r i) (r ! Suc (run_end same r i)))"
proof -
  have "same (r ! j) (r ! Suc j)" if "run_start same r i \<le> j \<and> j < run_end same r i" for j
  proof (cases "j < i")
    case True
    then show ?thesis using run_start_chain [of same r i j] that by simp
  next
    case False
    then show ?thesis using run_end_chain [of i j same r] that by simp
  qed
  then show ?thesis
    using run_start_le [of same r i] run_end_bounds [OF assms, of same]
      run_start_boundary [of same r i] run_end_boundary [OF assms, of same]
    by blast
qed

lemma in_stale_run_iff:
  assumes "i < length r" and "0 < w"
  shows "in_stale_run same w r i =
           (\<exists>e. i \<le> e \<and> e < i + w \<and> e < length r \<and> w \<le> e + 1
                \<and> (\<forall>j. e + 1 - w \<le> j \<and> j < e \<longrightarrow> same (r ! j) (r ! Suc j)))"
proof
  assume "in_stale_run same w r i"
  then have L: "w \<le> run_end same r i + 1 - run_start same r i" by (simp add: in_stale_run_def)
  let ?rs = "run_start same r i" and ?re = "run_end same r i"
  have rs: "?rs \<le> i" by (rule run_start_le)
  have re: "i \<le> ?re" "?re < length r" using run_end_bounds [OF assms(1), of same] by auto
  define e where "e = max i (?rs + w - 1)"
  have e1: "i \<le> e" "e < i + w" "e \<le> ?re" "w \<le> e + 1" "?rs \<le> e + 1 - w"
    using L rs re assms(2) by (auto simp: e_def)
  have "same (r ! j) (r ! Suc j)" if "e + 1 - w \<le> j \<and> j < e" for j
  proof (cases "j < i")
    case True
    then show ?thesis using run_start_chain [of same r i j] that e1 by simp
  next
    case False
    then show ?thesis using run_end_chain [of i j same r] that e1 by simp
  qed
  then show "\<exists>e. i \<le> e \<and> e < i + w \<and> e < length r \<and> w \<le> e + 1
                \<and> (\<forall>j. e + 1 - w \<le> j \<and> j < e \<longrightarrow> same (r ! j) (r ! Suc j))"
    using e1 re by (intro exI [of _ e]) auto
next
  assume "\<exists>e. i \<le> e \<and> e < i + w \<and> e < length r \<and> w \<le> e + 1
                \<and> (\<forall>j. e + 1 - w \<le> j \<and> j < e \<longrightarrow> same (r ! j) (r ! Suc j))"
  then obtain e where e: "i \<le> e" "e < i + w" "e < length r" "w \<le> e + 1"
    and ch: "\<And>j. e + 1 - w \<le> j \<Longrightarrow> j < e \<Longrightarrow> same (r ! j) (r ! Suc j)" by blast
  have s: "e + 1 - w \<le> i" using e by simp
  have "run_start same r i \<le> e + 1 - w"
    using run_start_least [OF s, of same r] ch e by simp
  moreover have "e \<le> run_end same r i"
    using run_end_greatest [OF e(1) e(3), of same] ch s by simp
  ultimately show "in_stale_run same w r i" using e by (simp add: in_stale_run_def)
qed

section \<open>Endpoints and their spreading\<close>

lemma length_filter_eq_iff: "(length (filter P xs) = length xs) = (\<forall>v \<in> set xs. P v)"
proof (induction xs)
  case Nil
  then show ?case by simp
next
  case (Cons a xs)
  show ?case
  proof (cases "P a")
    case True
    then show ?thesis using Cons by simp
  next
    case False
    have "length (filter P xs) \<le> length xs" by (rule length_filter_le)
    then have "length (filter P xs) \<noteq> Suc (length xs)" by linarith
    then show ?thesis using False by simp
  qed
qed

lemma nth_diff_values:
  "i < length xs \<Longrightarrow> diff_values xs ! i = (if i = 0 then NaN else fsub (xs ! i) (xs ! (i - 1)))"
  by (simp add: diff_values_def)

lemma feq_fsub_zero: "feq (fsub b a) (Fin 0) = feq_finite a b"
  by (cases a; cases b) (auto simp: feq_finite_def)

lemma feq_zero_finite: "feq v (Fin 0) \<Longrightarrow> is_finite v"
  by (cases v) auto

lemma endpoint_flag_iff:
  assumes "i < length r" and "0 < w1"
  shows "endpoint_flag w1 (diff_values r) i =
           (Suc w1 \<le> i + 1
            \<and> (\<forall>j. i + 1 - Suc w1 \<le> j \<and> j < i \<longrightarrow> feq_finite (r ! j) (r ! Suc j)))"
proof (cases "w1 \<le> i + 1")
  case True
  let ?ds = "diff_values r"
  have i: "i < length ?ds" using assms(1) by (simp add: length_diff_values)
  have len: "length (window_at w1 ?ds i) = w1" using True i by (rule length_window_at)
  have "endpoint_flag w1 ?ds i = (\<forall>v \<in> set (window_at w1 ?ds i). feq v (Fin 0))"
    using True len length_filter_eq_iff [of "\<lambda>v. feq v (Fin 0)" "window_at w1 ?ds i"]
    by (auto simp: endpoint_flag_def list_all_iff dest: feq_zero_finite)
  also have "\<dots> = (\<forall>k. i + 1 - w1 \<le> k \<and> k \<le> i \<longrightarrow> feq (?ds ! k) (Fin 0))"
    using True i by (rule window_at_all)
  also have "\<dots> = (Suc w1 \<le> i + 1
            \<and> (\<forall>j. i + 1 - Suc w1 \<le> j \<and> j < i \<longrightarrow> feq_finite (r ! j) (r ! Suc j)))"
  proof (cases "Suc w1 \<le> i + 1")
    case True
    have "(\<forall>k. i + 1 - w1 \<le> k \<and> k \<le> i \<longrightarrow> feq (?ds ! k) (Fin 0))
          = (\<forall>j. i + 1 - Suc w1 \<le> j \<and> j < i \<longrightarrow> feq_finite (r ! j) (r ! Suc j))"
    proof (intro iffI allI impI)
      fix j
      assume L: "\<forall>k. i + 1 - w1 \<le> k \<and> k \<le> i \<longrightarrow> feq (?ds ! k) (Fin 0)"
        and j: "i + 1 - Suc w1 \<le> j \<and> j < i"
      have "i + 1 - w1 \<le> Suc j \<and> Suc j \<le> i" using j True by auto
      then have "feq (?ds ! Suc j) (Fin 0)" using L by blast
      moreover have "Suc j < length r" using j assms(1) by simp
      ultimately show "feq_finite (r ! j) (r ! Suc j)"
        by (simp add: nth_diff_values feq_fsub_zero)
    next
      fix k
      assume R: "\<forall>j. i + 1 - Suc w1 \<le> j \<and> j < i \<longrightarrow> feq_finite (r ! j) (r ! Suc j)"
        and k: "i + 1 - w1 \<le> k \<and> k \<le> i"
      have k0: "0 < k" using k True by auto
      then obtain j where kj: "k = Suc j" by (cases k) auto
      have "i + 1 - Suc w1 \<le> j \<and> j < i" using k kj True by auto
      then have "feq_finite (r ! j) (r ! Suc j)" using R by blast
      moreover have "k < length r" using k assms(1) by simp
      ultimately show "feq (?ds ! k) (Fin 0)"
        using kj by (simp add: nth_diff_values feq_fsub_zero)
    qed
    then show ?thesis using True by simp
  next
    case False
    then have "i + 1 - w1 = 0" using \<open>w1 \<le> i + 1\<close> by simp
    moreover have "0 < length r" using assms(1) by (cases r) auto
    then have "\<not> feq (?ds ! 0) (Fin 0)" by (simp add: nth_diff_values)
    ultimately show ?thesis using False by auto
  qed
  finally show ?thesis .
next
  case False
  then show ?thesis by (simp add: endpoint_flag_def)
qed

lemma nth_shift_back:
  assumes "i < length xs"
  shows "fillna_False (shift (- int k) xs) ! i = (i + k < length xs \<and> xs ! (i + k))"
proof -
  have sh: "shift (- int k) xs = map Some (drop k xs) @ replicate (min k (length xs)) None"
    by (simp add: shift_def)
  show ?thesis
  proof (cases "i + k < length xs")
    case True
    then have "i < length (map Some (drop k xs))" by simp
    then have "shift (- int k) xs ! i = Some (xs ! (k + i))"
      unfolding sh by (simp add: nth_append)
    moreover have "i < length (shift (- int k) xs)" using assms by (simp add: length_shift)
    ultimately show ?thesis using True by (simp add: fillna_False_def add.commute)
  next
    case False
    then have a: "\<not> i < length (map Some (drop k xs))" by simp
    have b: "i - length (map Some (drop k xs)) < min k (length xs)" using False assms by auto
    have "shift (- int k) xs ! i = None"
      unfolding sh using a b by (simp only: nth_append if_False nth_replicate)
    moreover have "i < length (shift (- int k) xs)" using assms by (simp add: length_shift)
    ultimately show ?thesis using False by (simp add: fillna_False_def)
  qed
qed

lemma spread_loop_nth:
  assumes "length endpoints = length flags" and "i < length flags"
  shows "spread_loop window endpoints flags ! i =
           (flags ! i \<or> (\<exists>k. int k < window \<and> i + k < length endpoints \<and> endpoints ! (i + k)))"
  using assms
proof (induction window endpoints flags rule: spread_loop.induct)
  case (1 window endpoints flags)
  show ?case
  proof (cases "0 < window")
    case True
    let ?k = "nat (window - 1)"
    let ?f = "map2 (\<or>) flags (fillna_False (shift (- (window - 1)) endpoints))"
    have k: "- (window - 1) = - int ?k" using True by simp
    have len: "length endpoints = length ?f"
      using "1.prems" by (simp add: length_fillna_False length_shift)
    have i: "i < length ?f" using "1.prems" len by simp
    have sh: "fillna_False (shift (- (window - 1)) endpoints) ! i
                = (i + ?k < length endpoints \<and> endpoints ! (i + ?k))"
      unfolding k using "1.prems" by (intro nth_shift_back) simp
    have fi: "?f ! i = (flags ! i \<or> (i + ?k < length endpoints \<and> endpoints ! (i + ?k)))"
      using "1.prems" sh by (simp add: length_fillna_False length_shift)
    have "spread_loop window endpoints flags ! i = spread_loop (window - 1) endpoints ?f ! i"
      using True by (subst spread_loop.simps) simp
    also have "\<dots> = (?f ! i \<or> (\<exists>k. int k < window - 1 \<and> i + k < length endpoints \<and> endpoints ! (i + k)))"
      using "1.IH" [OF True len i] .
    also have "\<dots> = (flags ! i \<or> (\<exists>k. int k < window \<and> i + k < length endpoints \<and> endpoints ! (i + k)))"
    proof -
      have "(\<exists>k. int k < window \<and> i + k < length endpoints \<and> endpoints ! (i + k))
            = ((i + ?k < length endpoints \<and> endpoints ! (i + ?k))
               \<or> (\<exists>k. int k < window - 1 \<and> i + k < length endpoints \<and> endpoints ! (i + k)))"
      proof
        assume "\<exists>k. int k < window \<and> i + k < length endpoints \<and> endpoints ! (i + k)"
        then obtain k' where k': "int k' < window" "i + k' < length endpoints" "endpoints ! (i + k')"
          by blast
        show "(i + ?k < length endpoints \<and> endpoints ! (i + ?k))
               \<or> (\<exists>k. int k < window - 1 \<and> i + k < length endpoints \<and> endpoints ! (i + k))"
        proof (cases "k' = ?k")
          case True
          then show ?thesis using k' by simp
        next
          case False
          then have "int k' < window - 1" using k'(1) by linarith
          then show ?thesis using k' by blast
        qed
      next
        assume "(i + ?k < length endpoints \<and> endpoints ! (i + ?k))
               \<or> (\<exists>k. int k < window - 1 \<and> i + k < length endpoints \<and> endpoints ! (i + k))"
        then show "\<exists>k. int k < window \<and> i + k < length endpoints \<and> endpoints ! (i + k)"
        proof
          assume "i + ?k < length endpoints \<and> endpoints ! (i + ?k)"
          moreover have "int ?k < window" using True by simp
          ultimately show ?thesis by blast
        next
          assume "\<exists>k. int k < window - 1 \<and> i + k < length endpoints \<and> endpoints ! (i + k)"
          then obtain k' where "int k' < window - 1" "i + k' < length endpoints" "endpoints ! (i + k')"
            by blast
          then have "int k' < window \<and> i + k' < length endpoints \<and> endpoints ! (i + k')" by simp
          then show ?thesis by blast
        qed
      qed
      then show ?thesis using fi by blast
    qed
    finally show ?thesis .
  next
    case False
    have e: "spread_loop window endpoints flags = flags"
      by (subst spread_loop.simps) (simp add: False)
    have ne: "(\<exists>k. int k < window \<and> i + k < length endpoints \<and> endpoints ! (i + k)) = False"
      using False by auto
    show ?thesis by (simp only: e ne simp_thms)
  qed
qed

section \<open>The rounding-based detector flags whole runs\<close>

lemma feq_finite_no_inf: "\<not> is_inf a \<Longrightarrow> feq_finite a b = feq a b"
  by (cases a; cases b) (auto simp: feq_finite_def)

lemma in_stale_run_no_inf:
  assumes "\<forall>v \<in> set r. \<not> is_inf v" and "i < length r" and "0 < w"
  shows "in_stale_run feq w r i = in_stale_run feq_finite w r i"
proof -
  have "feq_finite (r ! j) (r ! Suc j) = feq (r ! j) (r ! Suc j)" if "j < length r" for j
    using assms(1) that by (intro feq_finite_no_inf) auto
  then have "(\<forall>j. e + 1 - w \<le> j \<and> j < e \<longrightarrow> feq (r ! j) (r ! Suc j))
           = (\<forall>j. e + 1 - w \<le> j \<and> j < e \<longrightarrow> feq_finite (r ! j) (r ! Suc j))"
    if "e < length r" for e
    using that by (metis (no_types, lifting) less_trans)
  then show ?thesis
    unfolding in_stale_run_iff [OF assms(2,3)] by blast
qed

lemma spread_endpoints_run:
  assumes "2 \<le> window" and "i < length x"
  shows "spread_loop window
           (map (endpoint_flag (nat (window - 1)) (diff_values (map (np_round decimals) (map snd x)))) [0..<length x])
           (map (endpoint_flag (nat (window - 1)) (diff_values (map (np_round decimals) (map snd x)))) [0..<length x]) ! i
         = in_stale_run feq_finite (nat window) (map (np_round decimals) (map snd x)) i"
proof -
  let ?r = "map (np_round decimals) (map snd x)"
  let ?w1 = "nat (window - 1)" and ?w = "nat window"
  let ?E = "map (endpoint_flag ?w1 (diff_values ?r)) [0..<length x]"
  have w: "0 < ?w1" "?w = Suc ?w1" "0 < ?w" using assms(1) by auto
  have n: "length ?r = length x" by simp
  have E: "?E ! e = (Suc ?w1 \<le> e + 1
            \<and> (\<forall>j. e + 1 - Suc ?w1 \<le> j \<and> j < e \<longrightarrow> feq_finite (?r ! j) (?r ! Suc j)))"
    if "e < length x" for e
    using that endpoint_flag_iff [of e ?r ?w1] w(1) by simp
  have "spread_loop window ?E ?E ! i
        = (?E ! i \<or> (\<exists>k. int k < window \<and> i + k < length ?E \<and> ?E ! (i + k)))"
    using assms(2) by (intro spread_loop_nth) simp_all
  also have "\<dots> = (\<exists>e. i \<le> e \<and> e < i + ?w \<and> e < length x \<and> ?E ! e)"
  proof
    assume "?E ! i \<or> (\<exists>k. int k < window \<and> i + k < length ?E \<and> ?E ! (i + k))"
    then show "\<exists>e. i \<le> e \<and> e < i + ?w \<and> e < length x \<and> ?E ! e"
    proof
      assume "?E ! i"
      then show ?thesis using assms(2) w(3) by (intro exI [of _ i]) simp
    next
      assume "\<exists>k. int k < window \<and> i + k < length ?E \<and> ?E ! (i + k)"
      then obtain k where k: "int k < window" "i + k < length ?E" "?E ! (i + k)" by blast
      have "i \<le> i + k \<and> i + k < i + ?w \<and> i + k < length x" using k(1,2) by simp
      then show ?thesis using k(3) by blast
    qed
  next
    assume "\<exists>e. i \<le> e \<and> e < i + ?w \<and> e < length x \<and> ?E ! e"
    then obtain e where e: "i \<le> e" "e < i + ?w" "e < length x" "?E ! e" by blast
    define k where "k = e - i"
    have "int k < window" "i + k < length ?E" "i + k = e" using e by (auto simp: k_def)
    then show "?E ! i \<or> (\<exists>k. int k < window \<and> i + k < length ?E \<and> ?E ! (i + k))"
      using e(4) by blast
  qed
  also have "\<dots> = (\<exists>e. i \<le> e \<and> e < i + ?w \<and> e < length ?r \<and> ?w \<le> e + 1
                \<and> (\<forall>j. e + 1 - ?w \<le> j \<and> j < e \<longrightarrow> feq_finite (?r ! j) (?r ! Suc j)))"
    using E w(2) n by (metis (no_types, lifting))
  also have "\<dots> = in_stale_run feq_finite ?w ?r i"
    using in_stale_run_iff [of i ?r ?w feq_finite] assms(2) w(3) n by simp
  finally show ?thesis .
qed

text \<open>
  Claim C2, amended. For a window of at least 2, \<open>stale_values_round\<close> returns a mask over
  the index of \<open>x\<close> that is True exactly at the positions belonging to a maximal run of at
  least \<open>window\<close> consecutive values whose roundings to \<open>decimals\<close> places are finite and
  identical: every member of such a run is flagged, every position of a shorter run and
  every position outside such a run is not. Where no rounded value is infinite this is the
  run of values identical after rounding under float equality.
\<close>

theorem stale_values_round_flags_runs:
  assumes "2 \<le> window"
  shows "\<exists>mask. stale_values_round x decimals window = Inr mask
           \<and> map fst mask = map fst x
           \<and> (\<forall>i<length x. snd (mask ! i)
                 = in_stale_run feq_finite (nat window) (map (np_round decimals) (map snd x)) i)
           \<and> ((\<forall>v \<in> set (map (np_round decimals) (map snd x)). \<not> is_inf v) \<longrightarrow>
                (\<forall>i<length x. snd (mask ! i)
                   = in_stale_run feq (nat window) (map (np_round decimals) (map snd x)) i))"
proof -
  let ?r = "map (np_round decimals) (map snd x)"
  let ?E = "map (endpoint_flag (nat (window - 1)) (diff_values ?r)) [0..<length x]"
  let ?mask = "zip (map fst x) (spread_loop window ?E ?E)"
  have w: "1 \<le> window" "0 < nat window" using assms by auto
  have len: "length (spread_loop window ?E ?E) = length x" by (simp add: length_spread_loop)
  have A: "stale_values_round x decimals window = Inr ?mask"
    by (rule stale_values_round_closed [OF w(1)])
  have B: "map fst ?mask = map fst x" using len by (simp add: map_fst_zip)
  have C: "snd (?mask ! i) = in_stale_run feq_finite (nat window) ?r i" if "i < length x" for i
    using that len spread_endpoints_run [OF assms that, of decimals] by simp
  have D: "snd (?mask ! i) = in_stale_run feq (nat window) ?r i"
    if "\<forall>v \<in> set ?r. \<not> is_inf v" and "i < length x" for i
    using in_stale_run_no_inf [of ?r i "nat window"] that w(2) C by simp
  show ?thesis using A B C D by blast
qed

theorem stale_values_round_flags_runs_witness:
  "(2::int) \<le> 3
   \<and> list_all (\<lambda>v. \<not> is_inf v) (map (np_round 1) (map snd
          [(0::nat, Fin 1), (1, Fin (65/32)), (2, Fin 2), (3, Fin (63/32)), (4, Fin 3)]))
   \<and> stale_values_round
        [(0::nat, Fin 1), (1, Fin (65/32)), (2, Fin 2), (3, Fin (63/32)), (4, Fin 3)] 1 3
        = Inr [(0, False), (1, True), (2, True), (3, True), (4, False)]
   \<and> in_stale_run feq_finite (nat 3)
        (map (np_round 1) (map snd
          [(0::nat, Fin 1), (1, Fin (65/32)), (2, Fin 2), (3, Fin (63/32)), (4, Fin 3)])) 1
   \<and> in_stale_run feq (nat 3)
        (map (np_round 1) (map snd
          [(0::nat, Fin 1), (1, Fin (65/32)), (2, Fin 2), (3, Fin (63/32)), (4, Fin 3)])) 1"
proof -
  let ?x = "[(0::nat, Fin 1), (1, Fin (65/32)), (2, Fin 2), (3, Fin (63/32)), (4, Fin 3)]"
  have h: "(2::int) \<le> 3" by simp
  have la: "list_all (\<lambda>v. \<not> is_inf v) (map (np_round 1) (map snd ?x))" by code_simp
  then have ni: "\<forall>v \<in> set (map (np_round 1) (map snd ?x)). \<not> is_inf v"
    by (simp only: list_all_iff)
  have ev: "stale_values_round ?x 1 3 = Inr [(0, False), (1, True), (2, True), (3, True), (4, False)]"
    by code_simp
  obtain mask where m: "stale_values_round ?x 1 3 = Inr mask"
    and fl: "\<forall>i<length ?x. snd (mask ! i)
                 = in_stale_run feq_finite (nat 3) (map (np_round 1) (map snd ?x)) i"
    and fl': "(\<forall>v \<in> set (map (np_round 1) (map snd ?x)). \<not> is_inf v) \<longrightarrow>
                (\<forall>i<length ?x. snd (mask ! i)
                   = in_stale_run feq (nat 3) (map (np_round 1) (map snd ?x)) i)"
    using stale_values_round_flags_runs [OF h, of ?x 1] by blast
  have mk: "mask = [(0, False), (1, True), (2, True), (3, True), (4, False)]" using m ev by simp
  from fl [rule_format, of 1] mk
  have a: "in_stale_run feq_finite (nat 3) (map (np_round 1) (map snd ?x)) 1" by simp
  from fl' ni have "\<forall>i<length ?x. snd (mask ! i)
                   = in_stale_run feq (nat 3) (map (np_round 1) (map snd ?x)) i" by blast
  from this [rule_format, of 1] mk
  have b: "in_stale_run feq (nat 3) (map (np_round 1) (map snd ?x)) 1" by simp
  show ?thesis using h la ev a b by simp
qed

text \<open>
  Four infinite values are identical after rounding, a maximal run of length 4, and none
  of them is flagged with window 4: the difference of two equal infinities is NaN.
\<close>

theorem infinite_run_not_flagged:
  "in_stale_run feq 4 (map (np_round 3) (map snd [(0::nat, PInf), (1, PInf), (2, PInf), (3, PInf)])) 0
   \<and> stale_values_round [(0::nat, PInf), (1, PInf), (2, PInf), (3, PInf)] 3 4
        = Inr [(0, False), (1, False), (2, False), (3, False)]"
  by code_simp

end
